theory Spec2Isabelle
  imports Complex_Main "HOL-Library.Word"
begin

unbundle bit_operations_syntax

section \<open>The asynchronous event bus of geeteventbus\<close>

text \<open>
  A shallow embedding of \<^verbatim>\<open>src/main/geeteventbus/async_eventbus.py\<close>. The bus object is a
  record, every method is a function that takes the bus and returns an outcome together with
  the bus as the call leaves it (also when the call raises: what was written before the raise
  stays written). The clock read by \<^verbatim>\<open>time()\<close> is an argument of the methods that read it.
  A Python \<^verbatim>\<open>str\<close> is represented by the list of its UTF-8 bytes, so
  \<^verbatim>\<open>bytes(data, encoding='UTF-8')\<close> reads the characters off as bytes.
  Left out, since they write no field of the bus: the calls of \<^verbatim>\<open>logging\<close>, the
  \<^verbatim>\<open>atexit\<close> registration, \<^verbatim>\<open>queue.task_done()\<close>, and what a subscriber's
  \<^verbatim>\<open>process\<close> does with an event. Locks are objects with an identity; every
  \<^verbatim>\<open>with\<close> block releases what it acquired, so no method leaves a lock held.
\<close>

subsection \<open>Module constants\<close>

definition MAX_TOPIC_INDEX :: int where
  "MAX_TOPIC_INDEX = 16"

definition DEFAULT_EXECUTOR_COUNT :: int where
  "DEFAULT_EXECUTOR_COUNT = 8"

definition MIN_EXECUTOR_COUNT :: int where
  "MIN_EXECUTOR_COUNT = 1"

definition MAX_EXECUTOR_COUNT :: int where
  "MAX_EXECUTOR_COUNT = 128"

definition MAXIMUM_QUEUE_LENGTH :: int where
  "MAXIMUM_QUEUE_LENGTH = 25600"

subsection \<open>The checksum\<close>

text \<open>
  \<^verbatim>\<open>zlib.crc32\<close> is the CRC-32 of ISO 3309: register preset to all ones, the reflected
  polynomial \<^verbatim>\<open>0xEDB88320\<close>, one shift per bit, final complement. In Python 3 the result is
  the unsigned value, an \<^verbatim>\<open>int\<close> between 0 and \<^verbatim>\<open>2**32 - 1\<close>.
\<close>

definition crc_shift :: "32 word \<Rightarrow> 32 word" where
  "crc_shift c = (if bit c 0 then drop_bit 1 c XOR 0xEDB88320 else drop_bit 1 c)"

definition crc_byte :: "32 word \<Rightarrow> 8 word \<Rightarrow> 32 word" where
  "crc_byte c b =
     crc_shift (crc_shift (crc_shift (crc_shift
       (crc_shift (crc_shift (crc_shift (crc_shift (c XOR ucast b))))))))"

definition crc32 :: "8 word list \<Rightarrow> 32 word" where
  "crc32 bs = foldl crc_byte 0xFFFFFFFF bs XOR 0xFFFFFFFF"

definition get_crc32 :: "string \<Rightarrow> int" where
  "get_crc32 data =
     (let strbytes = map (\<lambda>c. of_nat (of_char c) :: 8 word) data
      in uint (crc32 strbytes))"

subsection \<open>Objects, exceptions and outcomes\<close>

text \<open>
  Modelled from the spec: the classes \<^verbatim>\<open>Event\<close> (\<^verbatim>\<open>geeteventbus/event.py\<close>) and
  \<^verbatim>\<open>Subscriber\<close> (\<^verbatim>\<open>geeteventbus/subscriber.py\<close>) are not among the sources. An event has
  a topic, a type name and an optional ordering key (\<^verbatim>\<open>get_ordered()\<close> is \<^verbatim>\<open>None\<close> when
  absent); a subscriber is an opaque handle compared by identity, here a number.
\<close>

record event =
  get_topic :: string
  event_type_name :: string
  get_ordered :: "string option"

text \<open>
  The objects a caller can pass: the discriminators are the \<^verbatim>\<open>isinstance\<close> tests of the
  source. \<open>Other\<close> is any other hashable object.
\<close>

datatype pyobj =
    is_Subscriber: Subscriber nat
  | is_Event: Event (the_event: event)
  | Other nat

datatype exn = TypeError | ZeroDivisionError | IndexError | KeyError

text \<open>
  A call returns a value, raises, or waits: \<^verbatim>\<open>Queue.put(item, block=True, timeout=None)\<close>
  on a full queue waits for a free slot. \<open>Blocked t\<close> carries the \<^verbatim>\<open>timeout\<close> argument of
  the waiting call, \<open>None\<close> when the wait has no time limit.
\<close>

datatype 'a outcome = Return 'a | Raise exn | Blocked "real option"

datatype queue_ref = Shared | Lane nat

text \<open>Python's list indexing: a negative index counts from the end, out of range raises.\<close>

definition py_index :: "'a list \<Rightarrow> int \<Rightarrow> exn + nat" where
  "py_index xs i =
     (if 0 \<le> i \<and> i < int (length xs) then Inr (nat i)
      else if i < 0 \<and> - int (length xs) \<le> i then Inr (nat (int (length xs) + i))
      else Inl IndexError)"

subsection \<open>The bus\<close>

text \<open>
  Dictionaries and locks are objects: a field holds a reference (a number), and
  \<open>dict_store\<close> maps the reference of a dictionary to its contents. A queue is the list of
  its events, oldest first; \<open>max_queued_event\<close> is the \<^verbatim>\<open>maxsize\<close> of the shared queue.
  Executor thread \<open>i\<close> stands for the thread named \<^verbatim>\<open>executor_thread_i\<close>, whose entry in
  \<^verbatim>\<open>thread_specific_queue\<close> is the queue object \<open>grouped_events[i]\<close>.
\<close>

record bus =
  subscribers_thread_safe :: bool
  topics :: "nat list"
  dict_store :: "nat \<Rightarrow> (string \<rightharpoonup> pyobj list)"
  consumers :: "pyobj \<rightharpoonup> string list"
  consumers_lock :: nat
  shutdown_lock :: nat
  subscriber_locks :: "pyobj \<rightharpoonup> nat"
  next_lock :: nat
  keep_running :: bool
  stop_time :: real
  index_locks :: "nat list"
  max_queued_event :: int
  event_queue :: "event list"
  executor_count :: int
  executors :: "nat list"
  grouped_events :: "event list list"

text \<open>
  \<^verbatim>\<open>__init__\<close>: \<^verbatim>\<open>MAX_TOPIC_INDEX * [{}]\<close> evaluates \<^verbatim>\<open>{}\<close> once and repeats the
  reference, and so does \<^verbatim>\<open>[Lock()] * MAX_TOPIC_INDEX\<close>. The dictionary is object 0; the
  locks are objects 0 (consumers), 1 (shutdown) and 2 (index). \<^verbatim>\<open>range(n)\<close> is empty for
  \<open>n \<le> 0\<close>.
\<close>

definition init_bus :: "int \<Rightarrow> int \<Rightarrow> bool \<Rightarrow> bus" where
  "init_bus max_queued executor_cnt thread_safe =
     (let n = min executor_cnt MAX_EXECUTOR_COUNT in
      \<lparr> subscribers_thread_safe = thread_safe,
        topics = replicate (nat MAX_TOPIC_INDEX) 0,
        dict_store = (\<lambda>r. Map.empty),
        consumers = Map.empty,
        consumers_lock = 0,
        shutdown_lock = 1,
        subscriber_locks = Map.empty,
        next_lock = 3,
        keep_running = True,
        stop_time = 0,
        index_locks = replicate (nat MAX_TOPIC_INDEX) 2,
        max_queued_event = max_queued,
        event_queue = [],
        executor_count = n,
        executors = [0..<nat n],
        grouped_events = replicate (nat n) [] \<rparr>)"

subsection \<open>Routing and posting\<close>

definition choose_queue :: "bus \<Rightarrow> event \<Rightarrow> exn + queue_ref" where
  "choose_queue s eventobj =
     (case get_ordered eventobj of
        Some key \<Rightarrow>
          if executor_count s = 0 then Inl ZeroDivisionError
          else
            (let indx = (\<bar>get_crc32 key\<bar> AND (MAX_EXECUTOR_COUNT - 1)) mod executor_count s
             in case py_index (grouped_events s) indx of
                  Inl x \<Rightarrow> Inl x
                | Inr i \<Rightarrow> Inr (Lane i))
      | None \<Rightarrow> Inr Shared)"

text \<open>
  \<^verbatim>\<open>Queue(maxsize)\<close> is unbounded when \<open>maxsize \<le> 0\<close>; \<^verbatim>\<open>Queue()\<close> has maxsize 0.
  \<^verbatim>\<open>queue.put(eventobj)\<close> passes neither \<^verbatim>\<open>block\<close> nor \<^verbatim>\<open>timeout\<close>: it waits, without
  time limit.
\<close>

definition queue_full :: "int \<Rightarrow> 'a list \<Rightarrow> bool" where
  "queue_full maxsize q = (0 < maxsize \<and> maxsize \<le> int (length q))"

definition put :: "bus \<Rightarrow> queue_ref \<Rightarrow> event \<Rightarrow> unit outcome \<times> bus" where
  "put s q e =
     (case q of
        Shared \<Rightarrow>
          if queue_full (max_queued_event s) (event_queue s) then (Blocked None, s)
          else (Return (), s\<lparr>event_queue := event_queue s @ [e]\<rparr>)
      | Lane i \<Rightarrow>
          (Return (), s\<lparr>grouped_events := (grouped_events s)[i := grouped_events s ! i @ [e]]\<rparr>))"

definition post :: "bus \<Rightarrow> pyobj \<Rightarrow> bool outcome \<times> bus" where
  "post s eventobj =
     (if \<not> is_Event eventobj then (Return False, s)
      else if \<not> keep_running s then (Return False, s)
      else
        (case choose_queue s (the_event eventobj) of
           Inl x \<Rightarrow> (Raise x, s)
         | Inr queue \<Rightarrow>
             (case put s queue (the_event eventobj) of
                (Return u, s') \<Rightarrow> (Return True, s')
              | (Raise x, s') \<Rightarrow> (Raise x, s')
              | (Blocked t, s') \<Rightarrow> (Blocked t, s'))))"

subsection \<open>The consumer registry\<close>

definition get_topic_index :: "string \<Rightarrow> int" where
  "get_topic_index topic = get_crc32 topic AND (MAX_TOPIC_INDEX - 1)"

text \<open>
  \<^verbatim>\<open>self.topics[indexval]\<close> under \<^verbatim>\<open>with self.index_locks[indexval]\<close>: both lists are
  indexed, and the result is the reference of the shard's dictionary.
\<close>

definition shard_ref :: "bus \<Rightarrow> int \<Rightarrow> exn + nat" where
  "shard_ref s indexval =
     (case py_index (index_locks s) indexval of
        Inl x \<Rightarrow> Inl x
      | Inr l \<Rightarrow>
          (case py_index (topics s) indexval of
             Inl x \<Rightarrow> Inl x
           | Inr i \<Rightarrow> Inr (topics s ! i)))"

text \<open>
  The two updates of a shard's dictionary: the body of the \<^verbatim>\<open>with self.index_locks[indexval]\<close>
  block of \<^verbatim>\<open>register_consumer\<close>, and the one of the loop of \<^verbatim>\<open>unregister_consumer\<close>
  (\<^verbatim>\<open>list.remove\<close> deletes the first occurrence, as \<^const>\<open>remove1\<close> does).
\<close>

definition add_consumer ::
  "(string \<rightharpoonup> pyobj list) \<Rightarrow> pyobj \<Rightarrow> string \<Rightarrow> (string \<rightharpoonup> pyobj list)" where
  "add_consumer d consumer topic =
     (case d topic of
        None \<Rightarrow> d(topic \<mapsto> [consumer])
      | Some l \<Rightarrow> if consumer \<notin> set l then d(topic \<mapsto> l @ [consumer]) else d)"

definition remove_consumer ::
  "(string \<rightharpoonup> pyobj list) \<Rightarrow> pyobj \<Rightarrow> string \<Rightarrow> (string \<rightharpoonup> pyobj list)" where
  "remove_consumer d consumer topic =
     (case d topic of
        None \<Rightarrow> d
      | Some l \<Rightarrow>
          if consumer \<in> set l
          then (let l' = remove1 consumer l
                in if length l' = 0 then d(topic := None) else d(topic \<mapsto> l'))
          else d)"

text \<open>
  \<^verbatim>\<open>register_consumer\<close> returns \<^verbatim>\<open>False\<close> for an object that is no subscriber and falls
  off its end (\<^verbatim>\<open>None\<close>) otherwise.
\<close>

definition register_consumer :: "bus \<Rightarrow> pyobj \<Rightarrow> string \<Rightarrow> bool option outcome \<times> bus" where
  "register_consumer s consumer topic =
     (if \<not> is_Subscriber consumer then (Return (Some False), s)
      else
        (case shard_ref s (get_topic_index topic) of
           Inl x \<Rightarrow> (Raise x, s)
         | Inr r \<Rightarrow>
             (let s1 = s\<lparr>dict_store :=
                          (dict_store s)(r := add_consumer (dict_store s r) consumer topic)\<rparr>;
                  s2 = (case consumers s1 consumer of
                          None \<Rightarrow> s1\<lparr>consumers := (consumers s1)(consumer \<mapsto> [topic])\<rparr>
                        | Some ts \<Rightarrow>
                            if topic \<notin> set ts
                            then s1\<lparr>consumers := (consumers s1)(consumer \<mapsto> ts @ [topic])\<rparr>
                            else s1);
                  s3 = (if \<not> subscribers_thread_safe s2 \<and> consumer \<notin> dom (subscriber_locks s2)
                        then s2\<lparr>subscriber_locks := (subscriber_locks s2)(consumer \<mapsto> next_lock s2),
                                next_lock := Suc (next_lock s2)\<rparr>
                        else s2)
              in (Return None, s3))))"

fun register_consumer_topics :: "bus \<Rightarrow> pyobj \<Rightarrow> string list \<Rightarrow> unit outcome \<times> bus" where
  "register_consumer_topics s consumer [] = (Return (), s)"
| "register_consumer_topics s consumer (topic # topic_list) =
     (case register_consumer s consumer topic of
        (Return v, s') \<Rightarrow> register_consumer_topics s' consumer topic_list
      | (Raise x, s') \<Rightarrow> (Raise x, s')
      | (Blocked t, s') \<Rightarrow> (Blocked t, s'))"

text \<open>The loop of \<^verbatim>\<open>unregister_consumer\<close> over the topics the consumer had.\<close>

fun unregister_topics :: "bus \<Rightarrow> pyobj \<Rightarrow> string list \<Rightarrow> unit outcome \<times> bus" where
  "unregister_topics s consumer [] = (Return (), s)"
| "unregister_topics s consumer (topic # subscribed_topics) =
     (case shard_ref s (get_topic_index topic) of
        Inl x \<Rightarrow> (Raise x, s)
      | Inr r \<Rightarrow>
          unregister_topics
            (s\<lparr>dict_store := (dict_store s)(r := remove_consumer (dict_store s r) consumer topic)\<rparr>)
            consumer subscribed_topics)"

text \<open>
  \<^verbatim>\<open>subscribed_topics\<close> starts as \<^verbatim>\<open>None\<close> and is assigned only when the consumer is a
  key of \<^verbatim>\<open>self.consumers\<close>; iterating over \<^verbatim>\<open>None\<close> raises \<^verbatim>\<open>TypeError\<close>.
\<close>

definition unregister_consumer :: "bus \<Rightarrow> pyobj \<Rightarrow> unit outcome \<times> bus" where
  "unregister_consumer s consumer =
     (let subscribed_topics = consumers s consumer;
          s1 = (if consumer \<in> dom (consumers s)
                then s\<lparr>consumers := (consumers s)(consumer := None)\<rparr> else s);
          s2 = (if subscribers_thread_safe s1 \<and> consumer \<in> dom (subscriber_locks s1)
                then s1\<lparr>subscriber_locks := (subscriber_locks s1)(consumer := None)\<rparr> else s1)
      in case subscribed_topics of
           None \<Rightarrow> (Raise TypeError, s2)
         | Some ts \<Rightarrow> unregister_topics s2 consumer ts)"

definition is_subscribed :: "bus \<Rightarrow> pyobj \<Rightarrow> string \<Rightarrow> bool outcome" where
  "is_subscribed s consumer topic =
     (if \<not> is_Subscriber consumer then Return False
      else
        (case shard_ref s (get_topic_index topic) of
           Inl x \<Rightarrow> Raise x
         | Inr r \<Rightarrow>
             Return (case dict_store s r topic of
                       None \<Rightarrow> False
                     | Some l \<Rightarrow> consumer \<in> set l)))"

definition get_subscribers :: "bus \<Rightarrow> string \<Rightarrow> pyobj list outcome" where
  "get_subscribers s topic =
     (case shard_ref s (get_topic_index topic) of
        Inl x \<Rightarrow> Raise x
      | Inr r \<Rightarrow> Return (case dict_store s r topic of None \<Rightarrow> [] | Some l \<Rightarrow> l))"

subsection \<open>Workers and shutdown\<close>

text \<open>
  Executor thread \<open>i\<close> looks its own queue up by its name (a \<^verbatim>\<open>KeyError\<close> for a thread
  that is no executor) and takes it when it holds an event, the shared queue otherwise.
\<close>

definition choose_queue_to_pull :: "bus \<Rightarrow> nat \<Rightarrow> exn + queue_ref \<times> real" where
  "choose_queue_to_pull s i =
     (if i < length (grouped_events s)
      then (if grouped_events s ! i \<noteq> [] then Inr (Lane i, 0) else Inr (Shared, 0.1))
      else Inl KeyError)"

text \<open>\<^verbatim>\<open>queue.get(timeout)\<close> on a queue that stays empty raises \<^verbatim>\<open>Empty\<close>, caught here.\<close>

definition get_next_event :: "bus \<Rightarrow> nat \<Rightarrow> event option outcome \<times> bus" where
  "get_next_event s i =
     (case choose_queue_to_pull s i of
        Inl x \<Rightarrow> (Raise x, s)
      | Inr (Shared, timeout) \<Rightarrow>
          (case event_queue s of
             [] \<Rightarrow> (Return None, s)
           | e # rest \<Rightarrow> (Return (Some e), s\<lparr>event_queue := rest\<rparr>))
      | Inr (Lane j, timeout) \<Rightarrow>
          (case grouped_events s ! j of
             [] \<Rightarrow> (Return None, s)
           | e # rest \<Rightarrow> (Return (Some e), s\<lparr>grouped_events := (grouped_events s)[j := rest]\<rparr>)))"

definition thread_should_end :: "bus \<Rightarrow> real \<Rightarrow> bool" where
  "thread_should_end s now = (stop_time s > 0 \<and> now < stop_time s)"

text \<open>
  \<^verbatim>\<open>shutdown\<close> at clock reading \<open>now\<close>: the first component lists the threads the caller
  joins, in order (the caller returns when they have ended).
\<close>

definition shutdown :: "bus \<Rightarrow> real \<Rightarrow> nat list \<times> bus" where
  "shutdown s now =
     (if \<not> keep_running s then ([], s)
      else (executors s, s\<lparr>keep_running := False, stop_time := now + 2\<rparr>))"

subsection \<open>The states of a bus\<close>

text \<open>
  \<open>evolves s0 s\<close>: the bus \<open>s0\<close> becomes \<open>s\<close> by calls of its public methods and pulls of
  its executor threads, in any order.
\<close>

inductive evolves :: "bus \<Rightarrow> bus \<Rightarrow> bool" for s0 :: bus where
  ev_start: "evolves s0 s0"
| ev_post: "evolves s0 s \<Longrightarrow> evolves s0 (snd (post s eventobj))"
| ev_register: "evolves s0 s \<Longrightarrow> evolves s0 (snd (register_consumer s consumer topic))"
| ev_unregister: "evolves s0 s \<Longrightarrow> evolves s0 (snd (unregister_consumer s consumer))"
| ev_pull: "evolves s0 s \<Longrightarrow> evolves s0 (snd (get_next_event s i))"
| ev_shutdown: "evolves s0 s \<Longrightarrow> evolves s0 (snd (shutdown s now))"

definition total_queued :: "bus \<Rightarrow> nat" where
  "total_queued s = length (event_queue s) + sum_list (map length (grouped_events s))"

text \<open>What no method writes after construction.\<close>

definition same_frame :: "bus \<Rightarrow> bus \<Rightarrow> bool" where
  "same_frame s s' =
     (topics s' = topics s \<and> index_locks s' = index_locks s \<and>
      executor_count s' = executor_count s \<and> executors s' = executors s \<and>
      length (grouped_events s') = length (grouped_events s) \<and>
      max_queued_event s' = max_queued_event s \<and>
      subscribers_thread_safe s' = subscribers_thread_safe s)"

text \<open>The dictionary reached through entry \<open>i\<close> of \<^verbatim>\<open>self.topics\<close>.\<close>

definition shard :: "bus \<Rightarrow> nat \<Rightarrow> (string \<rightharpoonup> pyobj list)" where
  "shard s i = dict_store s (topics s ! i)"

text \<open>Invariants of the registry and of the shared queue, and the events of the examples.\<close>

definition distinct_lists :: "(string \<rightharpoonup> pyobj list) \<Rightarrow> bool" where
  "distinct_lists d = (\<forall>t l. d t = Some l \<longrightarrow> distinct l)"

definition absent :: "pyobj \<Rightarrow> (string \<rightharpoonup> pyobj list) \<Rightarrow> string \<Rightarrow> bool" where
  "absent c d t = (case d t of None \<Rightarrow> True | Some l \<Rightarrow> c \<notin> set l)"

definition shared_bounded :: "bus \<Rightarrow> bool" where
  "shared_bounded s =
     (0 < max_queued_event s \<longrightarrow> int (length (event_queue s)) \<le> max_queued_event s)"

definition ordered_event :: event where
  "ordered_event =
     \<lparr>get_topic = ''topic'', event_type_name = ''event_mine'', get_ordered = Some ''ord''\<rparr>"

definition unordered_event :: event where
  "unordered_event =
     \<lparr>get_topic = ''topic'', event_type_name = ''event_mine'', get_ordered = None\<rparr>"

definition one_unordered_post :: bus where
  "one_unordered_post = snd (post (init_bus 1 1 True) (Event unordered_event))"

definition stopped_full_bus :: bus where
  "stopped_full_bus = snd (shutdown one_unordered_post 100)"

definition unbounded_shared_post :: bus where
  "unbounded_shared_post = snd (post (init_bus 0 1 True) (Event unordered_event))"

definition two_ordered_posts :: bus where
  "two_ordered_posts =
     snd (post (snd (post (init_bus 1 1 True) (Event ordered_event))) (Event ordered_event))"

section \<open>Properties\<close>

subsection \<open>What stays fixed during the life of a bus\<close>

lemma same_frame_refl: "same_frame s s"
  by (simp add: same_frame_def)

lemma same_frame_trans: "same_frame s s' \<Longrightarrow> same_frame s' s'' \<Longrightarrow> same_frame s s''"
  by (simp add: same_frame_def)

lemma frame_put: "same_frame s (snd (put s q e))"
  by (cases q) (simp_all add: put_def same_frame_def)

lemma snd_post:
  "snd (post s eventobj) = s \<or> (\<exists>q. snd (post s eventobj) = snd (put s q (the_event eventobj)))"
proof (cases "choose_queue s (the_event eventobj)")
  case (Inl x)
  then show ?thesis by (simp add: post_def)
next
  case (Inr q)
  obtain r s' where p: "put s q (the_event eventobj) = (r, s')"
    by (cases "put s q (the_event eventobj)")
  have "snd (post s eventobj) = s \<or> snd (post s eventobj) = s'"
    using Inr p by (cases r) (simp_all add: post_def)
  with p show ?thesis by (metis snd_conv)
qed

lemma frame_post: "same_frame s (snd (post s eventobj))"
  using snd_post [of s eventobj] frame_put same_frame_refl by auto

lemma frame_register: "same_frame s (snd (register_consumer s consumer topic))"
  by (simp add: register_consumer_def same_frame_def Let_def split: sum.splits option.splits)

lemma frame_unregister_topics: "same_frame s (snd (unregister_topics s consumer ts))"
proof (induction ts arbitrary: s)
  case Nil
  show ?case by (simp add: same_frame_def)
next
  case (Cons t ts)
  show ?case
  proof (cases "shard_ref s (get_topic_index t)")
    case (Inl x)
    then show ?thesis by (simp add: same_frame_def)
  next
    case (Inr r)
    then show ?thesis
      using Cons.IH same_frame_trans
      by (simp add: Let_def) (rule same_frame_trans [OF _ Cons.IH], simp add: same_frame_def)
  qed
qed

lemma unregister_consumer_unfold:
  "\<exists>s2. same_frame s s2 \<and> dict_store s2 = dict_store s \<and>
     unregister_consumer s consumer =
       (case consumers s consumer of
          None \<Rightarrow> (Raise TypeError, s2)
        | Some ts \<Rightarrow> unregister_topics s2 consumer ts)"
proof -
  define s1 where "s1 = (if consumer \<in> dom (consumers s)
                then s\<lparr>consumers := (consumers s)(consumer := None)\<rparr> else s)"
  define s2 where "s2 = (if subscribers_thread_safe s1 \<and> consumer \<in> dom (subscriber_locks s1)
                then s1\<lparr>subscriber_locks := (subscriber_locks s1)(consumer := None)\<rparr> else s1)"
  have "same_frame s s2" "dict_store s2 = dict_store s"
    by (simp_all add: s1_def s2_def same_frame_def)
  moreover have "unregister_consumer s consumer =
       (case consumers s consumer of
          None \<Rightarrow> (Raise TypeError, s2)
        | Some ts \<Rightarrow> unregister_topics s2 consumer ts)"
    unfolding unregister_consumer_def Let_def s1_def s2_def by (rule refl)
  ultimately show ?thesis by blast
qed

lemma frame_unregister: "same_frame s (snd (unregister_consumer s consumer))"
proof -
  obtain s2 where f: "same_frame s s2"
    and u: "unregister_consumer s consumer =
       (case consumers s consumer of
          None \<Rightarrow> (Raise TypeError, s2)
        | Some ts \<Rightarrow> unregister_topics s2 consumer ts)"
    using unregister_consumer_unfold by blast
  show ?thesis
  proof (cases "consumers s consumer")
    case None
    with f u show ?thesis by simp
  next
    case (Some ts)
    with u have "snd (unregister_consumer s consumer) = snd (unregister_topics s2 consumer ts)"
      by simp
    with f frame_unregister_topics [of s2 consumer ts] show ?thesis
      by (simp add: same_frame_trans)
  qed
qed

lemma frame_pull: "same_frame s (snd (get_next_event s i))"
  by (simp add: get_next_event_def same_frame_def split: sum.splits prod.splits queue_ref.splits list.splits)

lemma frame_shutdown: "same_frame s (snd (shutdown s now))"
  by (simp add: shutdown_def same_frame_def)

lemma evolves_frame: "evolves s0 s \<Longrightarrow> same_frame s0 s"
proof (induction rule: evolves.induct)
  case ev_start
  show ?case by (rule same_frame_refl)
next
  case (ev_post s eventobj)
  then show ?case using frame_post same_frame_trans by blast
next
  case (ev_register s consumer topic)
  then show ?case using frame_register same_frame_trans by blast
next
  case (ev_unregister s consumer)
  then show ?case using frame_unregister same_frame_trans by blast
next
  case (ev_pull s i)
  then show ?case using frame_pull same_frame_trans by blast
next
  case (ev_shutdown s now)
  then show ?case using frame_shutdown same_frame_trans by blast
qed

subsection \<open>Auxiliary facts\<close>

lemma topic_index_topic: "get_topic_index ''topic'' = 11"
  by (simp add: get_topic_index_def MAX_TOPIC_INDEX_def get_crc32_def crc32_def
      crc_byte_def crc_shift_def)

lemma get_crc32_nonneg: "0 \<le> get_crc32 data"
  by (simp add: get_crc32_def Let_def)

lemma topic_index_range: "0 \<le> get_topic_index t \<and> get_topic_index t < 16"
proof -
  have "get_topic_index t \<le> 15"
    unfolding get_topic_index_def MAX_TOPIC_INDEX_def by (simp add: AND_upper2)
  moreover have "0 \<le> get_topic_index t"
    unfolding get_topic_index_def MAX_TOPIC_INDEX_def by simp
  ultimately show ?thesis by simp
qed

lemma init_frame:
  "topics (init_bus mq ec ts) = replicate 16 0"
  "index_locks (init_bus mq ec ts) = replicate 16 2"
  "executor_count (init_bus mq ec ts) = min ec MAX_EXECUTOR_COUNT"
  "executors (init_bus mq ec ts) = [0..<nat (min ec MAX_EXECUTOR_COUNT)]"
  "length (grouped_events (init_bus mq ec ts)) = nat (min ec MAX_EXECUTOR_COUNT)"
  "max_queued_event (init_bus mq ec ts) = mq"
  "subscribers_thread_safe (init_bus mq ec ts) = ts"
  by (simp_all add: init_bus_def Let_def MAX_TOPIC_INDEX_def)

lemma evolved_frame:
  assumes "evolves (init_bus mq ec ts) s"
  shows "topics s = replicate 16 0"
    and "index_locks s = replicate 16 2"
    and "executor_count s = min ec MAX_EXECUTOR_COUNT"
    and "executors s = [0..<nat (min ec MAX_EXECUTOR_COUNT)]"
    and "length (grouped_events s) = nat (min ec MAX_EXECUTOR_COUNT)"
    and "max_queued_event s = mq"
    and "subscribers_thread_safe s = ts"
  using evolves_frame [OF assms] by (simp_all add: same_frame_def init_frame)

lemma shard_ref_aliased:
  assumes "topics s = replicate 16 r" and "length (index_locks s) = 16"
  shows "shard_ref s (get_topic_index t) = Inr r"
proof -
  have "nat (get_topic_index t) < 16"
    using topic_index_range [of t] by arith
  then have "replicate 16 r ! nat (get_topic_index t) = r"
    by (rule nth_replicate)
  then show ?thesis
    using assms topic_index_range [of t] by (simp add: shard_ref_def py_index_def)
qed

lemma shard_ref_evolved:
  "evolves (init_bus mq ec ts) s \<Longrightarrow> shard_ref s (get_topic_index t) = Inr 0"
  by (rule shard_ref_aliased) (simp_all add: evolved_frame)

lemma unregister_topics_aliased:
  assumes "topics s = replicate 16 r" and "length (index_locks s) = 16"
  shows "unregister_topics s consumer subscribed =
     (Return (), s\<lparr>dict_store := (dict_store s)
        (r := foldl (\<lambda>d t. remove_consumer d consumer t) (dict_store s r) subscribed)\<rparr>)"
  using assms
proof (induction subscribed arbitrary: s)
  case Nil
  then show ?case by simp
next
  case (Cons t subscribed)
  let ?f = "\<lambda>d t. remove_consumer d consumer t"
  let ?s' = "s\<lparr>dict_store := (dict_store s)(r := ?f (dict_store s r) t)\<rparr>"
  have step: "unregister_topics s consumer (t # subscribed)
      = unregister_topics ?s' consumer subscribed"
    using shard_ref_aliased [OF Cons.prems] by simp
  have ih: "unregister_topics ?s' consumer subscribed
      = (Return (), ?s'\<lparr>dict_store := (dict_store ?s')
           (r := foldl ?f (dict_store ?s' r) subscribed)\<rparr>)"
    by (rule Cons.IH) (simp_all add: Cons.prems)
  have eq: "?s'\<lparr>dict_store := (dict_store ?s')(r := foldl ?f (dict_store ?s' r) subscribed)\<rparr>
      = s\<lparr>dict_store := (dict_store s)(r := foldl ?f (dict_store s r) (t # subscribed))\<rparr>"
    by simp
  show ?case
    using step ih eq by (simp only:)
qed

lemma distinct_add_consumer: "distinct_lists d \<Longrightarrow> distinct_lists (add_consumer d c t)"
  by (auto simp: distinct_lists_def add_consumer_def split: option.splits if_splits)

lemma distinct_remove_consumer: "distinct_lists d \<Longrightarrow> distinct_lists (remove_consumer d c t)"
  by (auto simp: distinct_lists_def remove_consumer_def Let_def split: option.splits if_splits)

lemma absent_after_remove: "distinct_lists d \<Longrightarrow> absent c (remove_consumer d c t) t"
  by (auto simp: distinct_lists_def absent_def remove_consumer_def Let_def split: option.splits)

lemma absent_remove_consumer: "absent c d t \<Longrightarrow> absent c (remove_consumer d c t') t"
  by (auto simp: absent_def remove_consumer_def Let_def split: option.splits if_splits
      dest: notin_set_remove1)

lemma absent_foldl:
  "absent c d t \<Longrightarrow> absent c (foldl (\<lambda>d t. remove_consumer d c t) d ts) t"
  by (induction ts arbitrary: d) (simp_all add: absent_remove_consumer)

lemma absent_after_foldl:
  "t \<in> set ts \<Longrightarrow> distinct_lists d \<Longrightarrow> absent c (foldl (\<lambda>d t. remove_consumer d c t) d ts) t"
proof (induction ts arbitrary: d)
  case Nil
  then show ?case by simp
next
  case (Cons x ts)
  show ?case
  proof (cases "x = t")
    case True
    then show ?thesis
      using Cons.prems absent_foldl [OF absent_after_remove] by simp
  next
    case False
    then show ?thesis
      using Cons.prems Cons.IH [OF _ distinct_remove_consumer] by simp
  qed
qed

lemma distinct_foldl:
  "distinct_lists d \<Longrightarrow> distinct_lists (foldl (\<lambda>d t. remove_consumer d c t) d ts)"
  by (induction ts arbitrary: d) (simp_all add: distinct_remove_consumer)

lemma dict_store_put: "dict_store (snd (put s q e)) = dict_store s"
  by (cases q) (simp_all add: put_def)

lemma dict_store_post: "dict_store (snd (post s eventobj)) = dict_store s"
  using snd_post [of s eventobj] dict_store_put by auto

lemma dict_store_pull: "dict_store (snd (get_next_event s i)) = dict_store s"
  by (simp add: get_next_event_def split: sum.splits prod.splits queue_ref.splits list.splits)

lemma dict_store_shutdown: "dict_store (snd (shutdown s now)) = dict_store s"
  by (simp add: shutdown_def)

lemma register_consumer_aliased:
  assumes "shard_ref s (get_topic_index t) = Inr r" and "is_Subscriber c"
  shows "fst (register_consumer s c t) = Return None"
    and "dict_store (snd (register_consumer s c t))
           = (dict_store s)(r := add_consumer (dict_store s r) c t)"
    and "\<exists>ts. consumers (snd (register_consumer s c t)) c = Some ts \<and> t \<in> set ts"
  using assms by (simp_all add: register_consumer_def Let_def split: option.splits)

lemma register_consumer_other:
  "\<not> is_Subscriber c \<Longrightarrow> register_consumer s c t = (Return (Some False), s)"
  by (simp add: register_consumer_def)

lemma unregister_consumer_aliased:
  assumes "topics s = replicate 16 r" and "length (index_locks s) = 16"
    and "consumers s c = Some ts"
  shows "fst (unregister_consumer s c) = Return ()"
    and "dict_store (snd (unregister_consumer s c))
           = (dict_store s)(r := foldl (\<lambda>d t. remove_consumer d c t) (dict_store s r) ts)"
proof -
  obtain s2 where f: "same_frame s s2" and d: "dict_store s2 = dict_store s"
    and u: "unregister_consumer s c =
       (case consumers s c of
          None \<Rightarrow> (Raise TypeError, s2)
        | Some ts \<Rightarrow> unregister_topics s2 c ts)"
    using unregister_consumer_unfold by blast
  have "topics s2 = replicate 16 r" "length (index_locks s2) = 16"
    using f assms by (simp_all add: same_frame_def)
  then have "unregister_topics s2 c ts =
     (Return (), s2\<lparr>dict_store := (dict_store s2)
        (r := foldl (\<lambda>d t. remove_consumer d c t) (dict_store s2 r) ts)\<rparr>)"
    by (rule unregister_topics_aliased)
  with u d assms(3) show "fst (unregister_consumer s c) = Return ()"
    and "dict_store (snd (unregister_consumer s c))
           = (dict_store s)(r := foldl (\<lambda>d t. remove_consumer d c t) (dict_store s r) ts)"
    by simp_all
qed

lemma unregister_consumer_unknown:
  assumes "consumers s c = None"
  shows "fst (unregister_consumer s c) = Raise TypeError"
    and "dict_store (snd (unregister_consumer s c)) = dict_store s"
proof -
  obtain s2 where d: "dict_store s2 = dict_store s"
    and u: "unregister_consumer s c =
       (case consumers s c of
          None \<Rightarrow> (Raise TypeError, s2)
        | Some ts \<Rightarrow> unregister_topics s2 c ts)"
    using unregister_consumer_unfold by blast
  with assms show "fst (unregister_consumer s c) = Raise TypeError"
    and "dict_store (snd (unregister_consumer s c)) = dict_store s"
    by simp_all
qed

lemma evolved_distinct:
  "evolves (init_bus mq ec ts) s \<Longrightarrow> distinct_lists (dict_store s 0)"
proof (induction rule: evolves.induct)
  case ev_start
  show ?case by (simp add: init_bus_def Let_def distinct_lists_def)
next
  case (ev_post s eventobj)
  then show ?case by (simp add: dict_store_post)
next
  case (ev_register s consumer topic)
  show ?case
  proof (cases "is_Subscriber consumer")
    case True
    with ev_register show ?thesis
      by (simp add: register_consumer_aliased(2) [OF shard_ref_evolved] distinct_add_consumer)
  next
    case False
    with ev_register show ?thesis by (simp add: register_consumer_other)
  qed
next
  case (ev_unregister s consumer)
  have fr: "topics s = replicate 16 0" "length (index_locks s) = 16"
    using evolved_frame [OF ev_unregister.hyps] by simp_all
  show ?case
  proof (cases "consumers s consumer")
    case None
    with ev_unregister show ?thesis by (simp add: unregister_consumer_unknown)
  next
    case (Some subscribed)
    with ev_unregister show ?thesis
      by (simp add: unregister_consumer_aliased(2) [OF fr] distinct_foldl)
  qed
next
  case (ev_pull s i)
  then show ?case by (simp add: dict_store_pull)
next
  case (ev_shutdown s now)
  then show ?case by (simp add: dict_store_shutdown)
qed

lemma add_consumer_present:
  "\<exists>l. add_consumer d c t t = Some l \<and> c \<in> set l"
  by (simp add: add_consumer_def split: option.splits)

lemma crc32_ord: "get_crc32 ''ord'' = 3944540986"
  by (simp add: get_crc32_def crc32_def crc_byte_def crc_shift_def)

lemma bounded_put: "shared_bounded s \<Longrightarrow> shared_bounded (snd (put s q e))"
  by (cases q) (auto simp: put_def shared_bounded_def queue_full_def)

lemma bounded_post: "shared_bounded s \<Longrightarrow> shared_bounded (snd (post s eventobj))"
  using snd_post [of s eventobj] bounded_put by auto

lemma event_queue_register:
  "event_queue (snd (register_consumer s c t)) = event_queue s"
  by (simp add: register_consumer_def Let_def split: sum.splits option.splits)

lemma event_queue_unregister_topics:
  "event_queue (snd (unregister_topics s c subscribed)) = event_queue s"
  by (induction subscribed arbitrary: s) (simp_all split: sum.splits)

lemma event_queue_unregister:
  "event_queue (snd (unregister_consumer s c)) = event_queue s"
  by (simp add: unregister_consumer_def Let_def event_queue_unregister_topics
      split: option.splits)

lemma bounded_pull: "shared_bounded s \<Longrightarrow> shared_bounded (snd (get_next_event s i))"
  by (auto simp: get_next_event_def shared_bounded_def
      split: sum.splits prod.splits queue_ref.splits list.splits)

lemma bounded_frame:
  "shared_bounded s \<Longrightarrow> same_frame s s' \<Longrightarrow> event_queue s' = event_queue s \<Longrightarrow>
   shared_bounded s'"
  by (simp add: shared_bounded_def same_frame_def)

lemma evolved_bounded:
  "evolves (init_bus mq ec ts) s \<Longrightarrow> shared_bounded s"
proof (induction rule: evolves.induct)
  case ev_start
  show ?case by (simp add: shared_bounded_def init_bus_def Let_def)
next
  case (ev_post s eventobj)
  then show ?case by (simp add: bounded_post)
next
  case (ev_register s consumer topic)
  then show ?case
    using bounded_frame [OF _ frame_register event_queue_register] by simp
next
  case (ev_unregister s consumer)
  then show ?case
    using bounded_frame [OF _ frame_unregister event_queue_unregister] by simp
next
  case (ev_pull s i)
  then show ?case by (simp add: bounded_pull)
next
  case (ev_shutdown s now)
  then show ?case by (simp add: shared_bounded_def shutdown_def)
qed

lemma one_unordered_post_eval:
  "one_unordered_post = (init_bus 1 1 True)\<lparr>event_queue := [unordered_event]\<rparr>"
  by (simp add: one_unordered_post_def post_def choose_queue_def put_def queue_full_def
      unordered_event_def init_bus_def Let_def)

lemma two_ordered_posts_eval:
  "two_ordered_posts = (init_bus 1 1 True)\<lparr>grouped_events := [[ordered_event, ordered_event]]\<rparr>"
  by (simp add: two_ordered_posts_def post_def choose_queue_def put_def py_index_def
      ordered_event_def init_bus_def Let_def MAX_EXECUTOR_COUNT_def)









section \<open>The claims\<close>

text \<open>
  Claim C1 (fails on the code): unregistering a consumer that is not registered should be a
  no-op that returns normally. On a fresh bus the call leaves the bus as it was, but it
  raises \<^verbatim>\<open>TypeError\<close>: \<^verbatim>\<open>subscribed_topics\<close> is still \<^verbatim>\<open>None\<close> when the loop
  iterates over it.
\<close>

theorem unregister_unknown_consumer_raises:
  "unregister_consumer (init_bus 10000 8 True) (Subscriber 0)
     = (Raise TypeError, init_bus 10000 8 True)"
  by (simp add: unregister_consumer_def init_bus_def Let_def)

text \<open>
  Claim C2 (fails on the code): after shutdown has set the deadline, the loop-exit test of
  a worker should be false before the deadline and true after it. The code has it the other
  way round: with the deadline at 102 the test is true at 101 and false at 103.
\<close>

theorem thread_should_end_before_deadline:
  "thread_should_end (snd (shutdown (init_bus 10000 8 True) 100)) 101
   \<and> \<not> thread_should_end (snd (shutdown (init_bus 10000 8 True) 100)) 103"
  by (simp add: thread_should_end_def shutdown_def init_bus_def Let_def)

text \<open>
  Claim C3 (fails on the code): an event with an ordering key should be routed to a lane
  whose index is below the worker count. The constructor accepts \<^verbatim>\<open>executor_count=0\<close> and
  negative counts and creates no lane for them; routing an event with ordering key
  \<^verbatim>\<open>'ord'\<close> then raises: \<^verbatim>\<open>ZeroDivisionError\<close> from the modulo at count 0, and
  \<^verbatim>\<open>IndexError\<close> from \<^verbatim>\<open>self.grouped_events[indx]\<close> at count -3.
\<close>

theorem choose_queue_raises_without_executor:
  "choose_queue (init_bus 10000 0 True) ordered_event = Inl ZeroDivisionError
   \<and> choose_queue (init_bus 10000 (- 3) True) ordered_event = Inl IndexError
   \<and> post (init_bus 10000 0 True) (Event ordered_event)
       = (Raise ZeroDivisionError, init_bus 10000 0 True)"
  by (simp add: post_def choose_queue_def py_index_def ordered_event_def crc32_ord
      init_bus_def Let_def MAX_EXECUTOR_COUNT_def)

text \<open>
  On a bus built with at least one executor the routing is as intended, at any moment of its
  life: an event with an ordering key goes to the lane whose index is the checksum of the key,
  masked by \<^verbatim>\<open>MAX_EXECUTOR_COUNT - 1\<close>, modulo the executor count; the index is below the
  executor count, names an existing lane, and is the one the fresh bus would choose (the
  executor count never changes); an event without ordering key goes to the shared queue.
\<close>

lemma choose_queue_lane:
  assumes "evolves (init_bus mq ec ts) s" and "0 < ec"
  shows "(get_ordered e = Some key \<longrightarrow>
            choose_queue s e
              = Inr (Lane (nat ((get_crc32 key AND (MAX_EXECUTOR_COUNT - 1)) mod executor_count s)))
            \<and> (get_crc32 key AND (MAX_EXECUTOR_COUNT - 1)) mod executor_count s < executor_count s
            \<and> nat ((get_crc32 key AND (MAX_EXECUTOR_COUNT - 1)) mod executor_count s)
                < length (grouped_events s)
            \<and> choose_queue s e = choose_queue (init_bus mq ec ts) e)
    \<and> (get_ordered e = None \<longrightarrow> choose_queue s e = Inr Shared)
    \<and> executor_count s = min ec MAX_EXECUTOR_COUNT
    \<and> length (grouped_events s) = length (executors s)"
proof -
  define n where "n = min ec MAX_EXECUTOR_COUNT"
  have n: "0 < n" using assms(2) by (simp add: n_def MAX_EXECUTOR_COUNT_def)
  have bounds: "0 \<le> k mod n" "k mod n < n" "nat (k mod n) < nat n" for k
    using n by simp_all
  have lane: "choose_queue s' e
      = Inr (Lane (nat ((get_crc32 key AND (MAX_EXECUTOR_COUNT - 1)) mod n)))"
    if "get_ordered e = Some key" and "executor_count s' = n"
      and "length (grouped_events s') = nat n" for s'
  proof -
    have "py_index (grouped_events s') ((get_crc32 key AND (MAX_EXECUTOR_COUNT - 1)) mod n)
        = Inr (nat ((get_crc32 key AND (MAX_EXECUTOR_COUNT - 1)) mod n))"
      using that(3) bounds by (simp add: py_index_def)
    then show ?thesis
      using that(1,2) n get_crc32_nonneg [of key] by (simp add: choose_queue_def Let_def)
  qed
  have ev0: "evolves (init_bus mq ec ts) (init_bus mq ec ts)" by (rule ev_start)
  have fs: "executor_count s = n" "length (grouped_events s) = nat n"
    "executors s = [0..<nat n]"
    using evolved_frame [OF assms(1)] by (simp_all add: n_def)
  have f0: "executor_count (init_bus mq ec ts) = n"
    "length (grouped_events (init_bus mq ec ts)) = nat n"
    using evolved_frame [OF ev0] by (simp_all add: n_def)
  have shared: "choose_queue s e = Inr Shared" if "get_ordered e = None"
    using that by (simp add: choose_queue_def)
  have same: "choose_queue s e = choose_queue (init_bus mq ec ts) e"
    if "get_ordered e = Some key"
    using lane [OF that fs(1,2)] lane [OF that f0] by simp
  have "executor_count s = min ec MAX_EXECUTOR_COUNT"
    using fs(1) by (simp add: n_def)
  then show ?thesis
    using lane [OF _ fs(1,2)] same shared bounds fs by simp
qed

lemma choose_queue_lane_example:
  "evolves (init_bus 10000 4 True) (init_bus 10000 4 True) \<and> (0::int) < 4
   \<and> choose_queue (init_bus 10000 4 True)
        \<lparr>get_topic = ''topic'', event_type_name = ''event_mine'', get_ordered = Some ''ord''\<rparr>
       = Inr (Lane 2)
   \<and> choose_queue (init_bus 10000 4 True)
        \<lparr>get_topic = ''topic'', event_type_name = ''event_mine'', get_ordered = None\<rparr>
       = Inr Shared"
proof -
  have e: "evolves (init_bus 10000 4 True) (init_bus 10000 4 True)"
    by (rule ev_start)
  have x: "executor_count (init_bus 10000 4 True) = 4"
    by (simp add: init_bus_def Let_def MAX_EXECUTOR_COUNT_def)
  have i: "nat ((3944540986 AND (MAX_EXECUTOR_COUNT - 1)) mod 4) = 2"
    by (simp add: MAX_EXECUTOR_COUNT_def)
  show ?thesis
    using e
      choose_queue_lane [OF e, of "\<lparr>get_topic = ''topic'', event_type_name = ''event_mine'',
        get_ordered = Some ''ord''\<rparr>" "''ord''"]
      choose_queue_lane [OF e, of "\<lparr>get_topic = ''topic'', event_type_name = ''event_mine'',
        get_ordered = None\<rparr>" "''ord''"]
    by (simp add: x i crc32_ord)
qed

text \<open>
  Claim C4 (as stated, fails on the code): the total number of queued events should be
  bounded by \<^verbatim>\<open>max_queued_event\<close>, every queue should have bounded capacity, and a post
  beyond capacity should be rejected or blocked only boundedly. On the code:
  the lane queues are built by \<^verbatim>\<open>Queue()\<close>, without bound, and two posts of an event with
  an ordering key on a bus with \<^verbatim>\<open>max_queued_event=1\<close> leave two events queued;
  with \<^verbatim>\<open>max_queued_event=0\<close> the shared queue is unbounded too, and one post exceeds the
  maximum; and a post on a full shared queue of a running bus is not rejected but waits in
  \<^verbatim>\<open>Queue.put\<close>, called with no timeout.
\<close>

theorem lane_queues_exceed_maximum:
  "evolves (init_bus 1 1 True) two_ordered_posts
   \<and> max_queued_event two_ordered_posts = 1
   \<and> total_queued two_ordered_posts = 2
   \<and> \<not> int (total_queued two_ordered_posts) \<le> max_queued_event two_ordered_posts
   \<and> evolves (init_bus 0 1 True) unbounded_shared_post
   \<and> max_queued_event unbounded_shared_post = 0
   \<and> length (event_queue unbounded_shared_post) = 1
   \<and> evolves (init_bus 1 1 True) one_unordered_post
   \<and> int (length (event_queue one_unordered_post)) = max_queued_event one_unordered_post
   \<and> post one_unordered_post (Event unordered_event) = (Blocked None, one_unordered_post)"
proof -
  have a: "evolves (init_bus 1 1 True) two_ordered_posts"
    unfolding two_ordered_posts_def by (rule ev_post, rule ev_post, rule ev_start)
  have b: "evolves (init_bus 0 1 True) unbounded_shared_post"
    unfolding unbounded_shared_post_def by (rule ev_post) (rule ev_start)
  have c: "evolves (init_bus 1 1 True) one_unordered_post"
    unfolding one_unordered_post_def by (rule ev_post) (rule ev_start)
  have d: "unbounded_shared_post = (init_bus 0 1 True)\<lparr>event_queue := [unordered_event]\<rparr>"
    by (simp add: unbounded_shared_post_def post_def choose_queue_def put_def queue_full_def
        unordered_event_def init_bus_def Let_def)
  have e: "post one_unordered_post (Event unordered_event) = (Blocked None, one_unordered_post)"
    by (simp add: one_unordered_post_eval post_def choose_queue_def put_def queue_full_def
        unordered_event_def init_bus_def Let_def)
  have f: "max_queued_event two_ordered_posts = 1" "total_queued two_ordered_posts = 2"
    by (simp_all add: two_ordered_posts_eval total_queued_def init_bus_def Let_def)
  have g: "max_queued_event unbounded_shared_post = 0"
    "length (event_queue unbounded_shared_post) = 1"
    by (simp_all add: d init_bus_def Let_def)
  have h: "int (length (event_queue one_unordered_post)) = max_queued_event one_unordered_post"
    by (simp add: one_unordered_post_eval init_bus_def Let_def)
  show ?thesis
    using a b c e f g h by simp
qed

text \<open>
  Claim C4, amended: on a bus built with a positive \<^verbatim>\<open>max_queued_event\<close>, in every
  reachable state, the shared queue of unordered events holds at most \<^verbatim>\<open>max_queued_event\<close>
  events, also after any further post. A post of an unordered event returns \<^verbatim>\<open>False\<close> and
  changes nothing when the bus is not running; on a running bus it waits in \<^verbatim>\<open>Queue.put\<close>
  with no timeout, enqueuing nothing, when the shared queue is full, and appends the event and
  returns \<^verbatim>\<open>True\<close> when it is not. A put on a lane queue never waits: the lane queues
  have no bound.
\<close>

theorem shared_queue_bounded:
  assumes "evolves (init_bus mq ec ts) s" and "0 < mq"
  shows "max_queued_event s = mq
    \<and> int (length (event_queue s)) \<le> mq
    \<and> int (length (event_queue (snd (post s obj)))) \<le> mq
    \<and> (get_ordered e = None \<longrightarrow>
         post s (Event e) =
           (if \<not> keep_running s then (Return False, s)
            else if int (length (event_queue s)) = mq then (Blocked None, s)
            else (Return True, s\<lparr>event_queue := event_queue s @ [e]\<rparr>)))
    \<and> put s (Lane i) e
        = (Return (), s\<lparr>grouped_events := (grouped_events s)[i := grouped_events s ! i @ [e]]\<rparr>)"
proof -
  have m: "max_queued_event s = mq"
    using evolved_frame [OF assms(1)] by simp
  have le: "int (length (event_queue s)) \<le> mq"
    using evolved_bounded [OF assms(1)] m assms(2) by (simp add: shared_bounded_def)
  have ev: "evolves (init_bus mq ec ts) (snd (post s obj))"
    using assms(1) by (rule ev_post)
  have le': "int (length (event_queue (snd (post s obj)))) \<le> mq"
    using evolved_bounded [OF ev] evolved_frame(6) [OF ev] assms(2)
    by (simp add: shared_bounded_def)
  have p: "post s (Event e) =
           (if \<not> keep_running s then (Return False, s)
            else if int (length (event_queue s)) = mq then (Blocked None, s)
            else (Return True, s\<lparr>event_queue := event_queue s @ [e]\<rparr>))"
    if "get_ordered e = None"
    using that m le assms(2) by (simp add: post_def choose_queue_def put_def queue_full_def)
  have l: "put s (Lane i) e
        = (Return (), s\<lparr>grouped_events := (grouped_events s)[i := grouped_events s ! i @ [e]]\<rparr>)"
    by (simp add: put_def)
  show ?thesis
    using m le le' p l by simp
qed

lemma stopped_full_bus_eval:
  "stopped_full_bus = one_unordered_post\<lparr>keep_running := False, stop_time := 102\<rparr>"
  by (simp add: stopped_full_bus_def shutdown_def one_unordered_post_eval init_bus_def Let_def)

theorem shared_queue_bounded_witness:
  "evolves (init_bus 1 1 True) one_unordered_post \<and> (0::int) < 1
   \<and> length (event_queue one_unordered_post) = 1
   \<and> keep_running one_unordered_post
   \<and> post one_unordered_post (Event unordered_event) = (Blocked None, one_unordered_post)
   \<and> evolves (init_bus 1 1 True) stopped_full_bus
   \<and> \<not> keep_running stopped_full_bus
   \<and> post stopped_full_bus (Event unordered_event) = (Return False, stopped_full_bus)
   \<and> post (init_bus 1 1 True) (Event unordered_event)
       = (Return True, (init_bus 1 1 True)\<lparr>event_queue := [unordered_event]\<rparr>)"
proof -
  have e0: "evolves (init_bus 1 1 True) (init_bus 1 1 True)"
    by (rule ev_start)
  have e1: "evolves (init_bus 1 1 True) one_unordered_post"
    unfolding one_unordered_post_def by (rule ev_post) (rule ev_start)
  have e2: "evolves (init_bus 1 1 True) stopped_full_bus"
    unfolding stopped_full_bus_def using e1 by (rule ev_shutdown)
  have k: "keep_running one_unordered_post" "length (event_queue one_unordered_post) = 1"
    "get_ordered unordered_event = None" "\<not> keep_running stopped_full_bus"
    "keep_running (init_bus 1 1 True)" "event_queue (init_bus 1 1 True) = []"
    by (simp_all add: stopped_full_bus_eval one_unordered_post_eval init_bus_def Let_def
        unordered_event_def)
  have p0: "post (init_bus 1 1 True) (Event unordered_event)
       = (Return True, (init_bus 1 1 True)\<lparr>event_queue := [unordered_event]\<rparr>)"
    using shared_queue_bounded [OF e0, where e = unordered_event] k by simp
  have p1: "post one_unordered_post (Event unordered_event) = (Blocked None, one_unordered_post)"
    using shared_queue_bounded [OF e1, where e = unordered_event] k by simp
  have p2: "post stopped_full_bus (Event unordered_event) = (Return False, stopped_full_bus)"
    using shared_queue_bounded [OF e2, where e = unordered_event] k by simp
  show ?thesis
    using e1 e2 k p0 p1 p2 by simp
qed

text \<open>
  Claim C5 (fails on the code): the number of executor threads and lane queues should be
  clamped to the range from 1 to 128. The constructor takes the minimum with
  \<^verbatim>\<open>MAX_EXECUTOR_COUNT\<close> only: for \<^verbatim>\<open>executor_count=0\<close> it creates no thread and no lane
  queue, and a negative count is stored as it is.
\<close>

theorem no_executor_for_count_zero:
  "length (executors (init_bus 10000 0 True)) = 0
   \<and> length (grouped_events (init_bus 10000 0 True)) = 0
   \<and> executor_count (init_bus 10000 (- 3) True) = - 3"
  by (simp add: init_bus_def Let_def MAX_EXECUTOR_COUNT_def)

text \<open>
  Claim C6 (fails on the code): unregistering a consumer that has a dispatch guard should
  remove the guard. On a bus built with \<^verbatim>\<open>subscribers_thread_safe=False\<close> the guard made by
  \<^verbatim>\<open>register_consumer\<close> is still in \<^verbatim>\<open>subscriber_locks\<close> after \<^verbatim>\<open>unregister_consumer\<close>:
  the deletion is guarded by \<^verbatim>\<open>self.subscribers_thread_safe\<close>, the creation by its negation.
\<close>

theorem guard_survives_unregister:
  "subscriber_locks (snd (register_consumer (init_bus 10000 8 False) (Subscriber 0) ''topic''))
     (Subscriber 0) = Some 3
   \<and> subscriber_locks
       (snd (unregister_consumer
              (snd (register_consumer (init_bus 10000 8 False) (Subscriber 0) ''topic''))
              (Subscriber 0)))
       (Subscriber 0) = Some 3"
  by (simp add: register_consumer_def unregister_consumer_def shard_ref_def py_index_def
      topic_index_topic init_bus_def Let_def MAX_TOPIC_INDEX_def)



text \<open>
  Claim C8: at any moment of the life of a bus, registering a subscriber for a topic and
  then unregistering it both return normally, and \<^verbatim>\<open>is_subscribed\<close> for that subscriber and
  topic then returns \<^verbatim>\<open>False\<close>.
\<close>

theorem register_unregister_not_subscribed:
  assumes "evolves (init_bus mq ec ts) s"
  shows "fst (register_consumer s (Subscriber c) t) = Return None
    \<and> fst (unregister_consumer (snd (register_consumer s (Subscriber c) t)) (Subscriber c))
        = Return ()
    \<and> is_subscribed
        (snd (unregister_consumer (snd (register_consumer s (Subscriber c) t)) (Subscriber c)))
        (Subscriber c) t = Return False"
proof -
  let ?c = "Subscriber c"
  let ?s1 = "snd (register_consumer s ?c t)"
  let ?s2 = "snd (unregister_consumer ?s1 ?c)"
  have ev1: "evolves (init_bus mq ec ts) ?s1"
    using assms by (rule ev_register)
  have ev2: "evolves (init_bus mq ec ts) ?s2"
    using ev1 by (rule ev_unregister)
  have r: "fst (register_consumer s ?c t) = Return None"
    by (rule register_consumer_aliased(1) [OF shard_ref_evolved [OF assms]]) simp
  obtain subscribed where c1: "consumers ?s1 ?c = Some subscribed" and t: "t \<in> set subscribed"
    using register_consumer_aliased(3) [OF shard_ref_evolved [OF assms], of ?c t] by auto
  have fr: "topics ?s1 = replicate 16 0" "length (index_locks ?s1) = 16"
    using evolved_frame [OF ev1] by simp_all
  have u: "fst (unregister_consumer ?s1 ?c) = Return ()"
    using fr c1 by (rule unregister_consumer_aliased(1))
  have "dict_store ?s2 0 = foldl (\<lambda>d t. remove_consumer d ?c t) (dict_store ?s1 0) subscribed"
    using unregister_consumer_aliased(2) [OF fr c1] by simp
  then have "absent ?c (dict_store ?s2 0) t"
    using absent_after_foldl [OF t evolved_distinct [OF ev1]] by simp
  then have "is_subscribed ?s2 ?c t = Return False"
    using shard_ref_evolved [OF ev2, of t]
    by (simp add: is_subscribed_def absent_def split: option.splits)
  with r u show ?thesis by simp
qed

theorem register_unregister_not_subscribed_witness:
  "evolves (init_bus 10000 8 True) (init_bus 10000 8 True)
   \<and> is_subscribed (snd (register_consumer (init_bus 10000 8 True) (Subscriber 0) ''topic''))
        (Subscriber 0) ''topic'' = Return True
   \<and> is_subscribed
        (snd (unregister_consumer
               (snd (register_consumer (init_bus 10000 8 True) (Subscriber 0) ''topic''))
               (Subscriber 0)))
        (Subscriber 0) ''topic'' = Return False"
proof -
  have e: "evolves (init_bus 10000 8 True) (init_bus 10000 8 True)"
    by (rule ev_start)
  have "is_subscribed (snd (register_consumer (init_bus 10000 8 True) (Subscriber 0) ''topic''))
        (Subscriber 0) ''topic'' = Return True"
    by (simp add: is_subscribed_def register_consumer_def add_consumer_def shard_ref_def
        py_index_def topic_index_topic init_bus_def Let_def MAX_TOPIC_INDEX_def)
  with e register_unregister_not_subscribed [OF e, of 0 "''topic''"] show ?thesis
    by simp
qed

text \<open>
  Claim C9: shutdown is idempotent. A call that finds \<^verbatim>\<open>keep_running\<close> false returns at
  once, joins no thread and leaves the bus as it is; a call that finds it true clears it,
  sets the deadline two seconds ahead and joins every executor; so any call after a first
  one changes nothing.
\<close>

theorem shutdown_idempotent:
  "(\<not> keep_running s \<longrightarrow> shutdown s now = ([], s))
   \<and> (keep_running s \<longrightarrow>
        shutdown s now = (executors s, s\<lparr>keep_running := False, stop_time := now + 2\<rparr>))
   \<and> shutdown (snd (shutdown s now)) later = ([], snd (shutdown s now))"
  by (simp add: shutdown_def)

theorem shutdown_idempotent_witness:
  "\<not> keep_running (snd (shutdown (init_bus 10000 8 True) 100))
   \<and> shutdown (snd (shutdown (init_bus 10000 8 True) 100)) 200
       = ([], snd (shutdown (init_bus 10000 8 True) 100))
   \<and> keep_running (init_bus 10000 8 True)
   \<and> fst (shutdown (init_bus 10000 8 True) 100) = [0, 1, 2, 3, 4, 5, 6, 7]
   \<and> stop_time (snd (shutdown (init_bus 10000 8 True) 100)) = 102"
  using shutdown_idempotent [of "snd (shutdown (init_bus 10000 8 True) 100)" 200 300]
    shutdown_idempotent [of "init_bus 10000 8 True" 100 200]
  by (simp add: init_bus_def MAX_EXECUTOR_COUNT_def upt_rec)

text \<open>
  Claim C10: at any moment of the life of a bus, the 16 entries of \<^verbatim>\<open>topics\<close> are one
  reference and so are the 16 entries of \<^verbatim>\<open>index_locks\<close>; the dictionaries reached through
  any two shard indices are therefore equal, and a subscriber registered for a topic is found
  under that topic through every shard index.
\<close>

theorem shards_alias_one_dictionary:
  assumes "evolves (init_bus mq ec ts) s" and "i < 16" and "j < 16"
  shows "length (topics s) = 16 \<and> length (index_locks s) = 16
    \<and> topics s ! i = topics s ! j
    \<and> index_locks s ! i = index_locks s ! j
    \<and> shard s i = shard s j
    \<and> (\<exists>l. shard (snd (register_consumer s (Subscriber c) t)) j t = Some l
            \<and> Subscriber c \<in> set l)"
proof -
  let ?s1 = "snd (register_consumer s (Subscriber c) t)"
  have fr: "topics s = replicate 16 0" "index_locks s = replicate 16 2"
    using evolved_frame [OF assms(1)] by simp_all
  have ev1: "evolves (init_bus mq ec ts) ?s1"
    using assms(1) by (rule ev_register)
  have fr1: "topics ?s1 = replicate 16 0"
    using evolved_frame [OF ev1] by simp
  have "dict_store ?s1 0 = add_consumer (dict_store s 0) (Subscriber c) t"
    using register_consumer_aliased(2) [OF shard_ref_evolved [OF assms(1)], of "Subscriber c" t]
    by simp
  then have "\<exists>l. shard ?s1 j t = Some l \<and> Subscriber c \<in> set l"
    using fr1 assms(3) add_consumer_present by (simp add: shard_def)
  then show ?thesis
    using fr assms(2,3) by (simp add: shard_def)
qed

theorem shards_alias_one_dictionary_witness:
  "evolves (init_bus 10000 8 True) (init_bus 10000 8 True) \<and> (3::nat) < 16 \<and> (11::nat) < 16
   \<and> topics (init_bus 10000 8 True) ! 3 = topics (init_bus 10000 8 True) ! 11
   \<and> index_locks (init_bus 10000 8 True) ! 3 = index_locks (init_bus 10000 8 True) ! 11
   \<and> (\<exists>l. shard (snd (register_consumer (init_bus 10000 8 True) (Subscriber 0) ''topic'')) 3
             ''topic'' = Some l \<and> Subscriber 0 \<in> set l)"
proof -
  have e: "evolves (init_bus 10000 8 True) (init_bus 10000 8 True)"
    by (rule ev_start)
  show ?thesis
    using e shards_alias_one_dictionary [OF e, of 11 3 0 "''topic''"]
      shards_alias_one_dictionary [OF e, of 3 11 0 "''topic''"] by simp
qed

end
